theory Spec2Isabelle
  imports Complex_Main "HOL-Library.Sublist"
begin

section \<open>Log paths\<close>

text \<open>
  The notebook \<^verbatim>\<open>src/tutorial/boxing_tutorial.ipynb\<close> defines the helper
  \<^verbatim>\<open>path_(net, alg=None, bench=False)\<close>. Python strings are modelled as
  \<^typ>\<open>string\<close>; the network names of the notebook are ASCII, so one \<^typ>\<open>char\<close>
  is one Python character. The optional argument \<^verbatim>\<open>alg\<close> is a
  \<^typ>\<open>string option\<close>, \<^verbatim>\<open>None\<close> being \<^term>\<open>None\<close>. A name cannot end
  in an underscore here, so the helper is called \<open>log_path\<close>.
\<close>

text \<open>Python's \<^verbatim>\<open>sub in s\<close> on strings: \<^verbatim>\<open>sub\<close> occurs in \<^verbatim>\<open>s\<close> as a contiguous run.\<close>

fun str_in :: "string \<Rightarrow> string \<Rightarrow> bool" where
  "str_in sub [] = (sub = [])"
| "str_in sub (c # cs) = (prefix sub (c # cs) \<or> str_in sub cs)"

text \<open>Python's \<^verbatim>\<open>s[-2:]\<close>: the last two characters, or all of \<^verbatim>\<open>s\<close> when it is shorter.\<close>

definition last_two :: "string \<Rightarrow> string" where
  "last_two s = drop (length s - 2) s"

definition log_path :: "string \<Rightarrow> string option \<Rightarrow> bool \<Rightarrow> string" where
  "log_path net alg bench =
     (case alg of
        None \<Rightarrow>
          (if str_in ''grid'' net
           then ''../../result_logs/grid2d/'' @ last_two net @ ''/''
           else ''../../result_logs/'' @ net @ ''/'')
      | Some a \<Rightarrow>
          (if str_in ''grid'' net
           then (let p = ''../../result_logs/grid2d/'' @ last_two net @ ''/'' @ net @ ''_'' @ a
                 in if bench then p @ ''_benchmark.txt'' else p @ ''.txt'')
           else (if bench
                 then ''../../result_logs/'' @ net @ ''/'' @ net @ ''_'' @ a @ ''_benchmark.txt''
                 else ''../../result_logs/'' @ net @ ''/'' @ net @ ''_'' @ a @ ''.txt'')))"

text \<open>
  The convention of the specification, \<^verbatim>\<open>{base}/{network}/{network}_{algorithm}.txt\<close>,
  as a function of the three names.
\<close>

definition convention_path :: "string \<Rightarrow> string \<Rightarrow> string \<Rightarrow> string" where
  "convention_path base net a = base @ ''/'' @ net @ ''/'' @ net @ ''_'' @ a @ ''.txt''"

definition convention_bench_path :: "string \<Rightarrow> string \<Rightarrow> string \<Rightarrow> string" where
  "convention_bench_path base net a =
     base @ ''/'' @ net @ ''/'' @ net @ ''_'' @ a @ ''_benchmark.txt''"

definition result_logs :: string where
  "result_logs = ''../../result_logs''"

section \<open>The algorithm registries\<close>

text \<open>
  The notebook keeps two dictionaries, \<^verbatim>\<open>algs_lb\<close> and \<^verbatim>\<open>algs_rb\<close>, from a name
  to the covering function of package \<^verbatim>\<open>boxes\<close> and its keyword arguments. The
  functions themselves are not part of the notebook: they are values handed on to
  \<^verbatim>\<open>boxes.io.run_boxing\<close>, so a constructor stands for each. A Python dictionary
  iterates in insertion order, so each registry is an association list.
\<close>

datatype algorithm =
  cbb | greedy_coloring | merge_algorithm | obca | fuzzy
  | mcwr | memb | random_sequential | remcc

datatype kwarg = Flag bool | Prob real

record alg_entry =
  alg :: algorithm
  kwargs :: "(string \<times> kwarg) list"

definition algs_lb :: "(string \<times> alg_entry) list" where
  "algs_lb =
    [(''cbb'', \<lparr>alg = cbb, kwargs = [(''boxing'', Flag True)]\<rparr>),
     (''greedy'', \<lparr>alg = greedy_coloring, kwargs = [(''boxing'', Flag True)]\<rparr>),
     (''merge'', \<lparr>alg = merge_algorithm, kwargs = [(''boxing'', Flag True)]\<rparr>),
     (''obca'', \<lparr>alg = obca, kwargs = [(''boxing'', Flag True)]\<rparr>),
     (''fuzzy'', \<lparr>alg = fuzzy, kwargs = [(''boxing'', Flag True)]\<rparr>)]"

definition algs_rb :: "(string \<times> alg_entry) list" where
  "algs_rb =
    [(''mcwr_0.75'', \<lparr>alg = mcwr, kwargs = [(''p'', Prob (3 / 4)), (''boxing'', Flag True)]\<rparr>),
     (''mcwr_0.5'', \<lparr>alg = mcwr, kwargs = [(''p'', Prob (1 / 2)), (''boxing'', Flag True)]\<rparr>),
     (''mcwr_0.25'', \<lparr>alg = mcwr, kwargs = [(''p'', Prob (1 / 4)), (''boxing'', Flag True)]\<rparr>),
     (''memb'', \<lparr>alg = memb, kwargs = [(''boxing'', Flag True)]\<rparr>),
     (''random_sequential'', \<lparr>alg = random_sequential, kwargs = [(''boxing'', Flag True)]\<rparr>),
     (''remcc'', \<lparr>alg = remcc, kwargs = [(''return_centres'', Flag False)]\<rparr>)]"

text \<open>\<^verbatim>\<open>d.keys()\<close>, and \<^verbatim>\<open>d[k]\<close>, which raises \<^verbatim>\<open>KeyError\<close> on a missing key.\<close>

datatype py_error = IndexError | KeyError | ValueError | NetworkXPointlessConcept

definition keys :: "(string \<times> 'v) list \<Rightarrow> string list" where
  "keys d = map fst d"

definition lookup :: "(string \<times> 'v) list \<Rightarrow> string \<Rightarrow> py_error + 'v" where
  "lookup d k = (case map_of d k of None \<Rightarrow> Inl KeyError | Some v \<Rightarrow> Inr v)"

section \<open>The wrapper \<open>boxing_all\<close>\<close>

text \<open>
  \<^verbatim>\<open>boxing_all(network, net, lb, rb)\<close> calls into the package and the standard
  library; what it does itself is to decide which calls are made, in which order and
  with which arguments. The model records exactly that: a world holds the trace of the
  calls made so far. Every call receives the same \<^verbatim>\<open>network\<close> object, which is
  therefore left out of the events. A call to \<^verbatim>\<open>time.time()\<close> is an event that
  carries the value read; the clock is an arbitrary sequence of readings, the
  \<open>i\<close>-th call of \<^verbatim>\<open>boxing_all\<close> reading \<open>clock i\<close>. Readings are reals: the only
  arithmetic on them is the one subtraction that yields an offset.
\<close>

record names =
  names_path :: string
  names_net :: string
  names_alg :: string

text \<open>
  The box sizes handed to \<^verbatim>\<open>run_boxing\<close>: the whole sequence, or the single
  integer \<^verbatim>\<open>lb[-1]\<close>.
\<close>

datatype box_sizes = Sweep "int list" | Single int

datatype event =
    Time_time real
  | Get_dist_dict
  | Benchmark names "int list" algorithm int "(string \<times> kwarg) list"
  | Random_seed int
  | Np_random_seed int
  | Drop_shortest_paths
  | Gc_collect
  | Rebuild_shortest_paths
  | Run_boxing names real box_sizes algorithm bool "(string \<times> kwarg) list"

text \<open>
  \<^term>\<open>Drop_shortest_paths\<close> is the assignment \<^verbatim>\<open>network.shortest_paths=None\<close>,
  \<^term>\<open>Rebuild_shortest_paths\<close> the assignment
  \<^verbatim>\<open>network.shortest_paths = dict(nx.all_pairs_shortest_path_length(network.graph))\<close>.
  The fifth argument of \<^term>\<open>Run_boxing\<close> is the keyword \<^verbatim>\<open>merge_alg\<close>, whose
  default is \<^verbatim>\<open>False\<close>.
\<close>

record world =
  reads :: nat
  trace :: "event list"

definition call :: "event \<Rightarrow> world \<Rightarrow> world" where
  "call e w = w\<lparr>trace := trace w @ [e]\<rparr>"

definition time_time :: "(nat \<Rightarrow> real) \<Rightarrow> world \<Rightarrow> real \<times> world" where
  "time_time clock w =
     (clock (reads w),
      w\<lparr>reads := Suc (reads w), trace := trace w @ [Time_time (clock (reads w))]\<rparr>)"

text \<open>\<^verbatim>\<open>lb[-1]\<close>: the last element; \<^verbatim>\<open>IndexError\<close> on an empty sequence.\<close>

definition last_elem :: "int list \<Rightarrow> py_error + int" where
  "last_elem xs = (if xs = [] then Inl IndexError else Inr (last xs))"

definition names_of :: "string \<Rightarrow> string \<Rightarrow> names" where
  "names_of net algorithm =
     \<lparr>names_path = log_path net None False, names_net = net, names_alg = algorithm\<rparr>"

text \<open>A \<^verbatim>\<open>for\<close> loop whose body may raise.\<close>

fun for_each :: "('a \<Rightarrow> world \<Rightarrow> py_error + world) \<Rightarrow> 'a list \<Rightarrow> world \<Rightarrow> py_error + world" where
  "for_each body [] w = Inr w"
| "for_each body (x # xs) w =
     (case body x w of Inl e \<Rightarrow> Inl e | Inr w' \<Rightarrow> for_each body xs w')"

text \<open>The body of the loop \<^verbatim>\<open>for algorithm in algs_lb.keys()\<close>.\<close>

definition lb_body ::
  "(nat \<Rightarrow> real) \<Rightarrow> string \<Rightarrow> real \<Rightarrow> int list \<Rightarrow> string \<Rightarrow> world \<Rightarrow> py_error + world" where
  "lb_body clock net time_offset lb algorithm w0 =
     (let w1 = call (Np_random_seed 137) (call (Random_seed 137) w0) in
      if algorithm \<noteq> ''merge'' \<and> algorithm \<noteq> ''fuzzy'' then
        (case lookup algs_lb algorithm of
           Inl e \<Rightarrow> Inl e
         | Inr entry \<Rightarrow>
             Inr (call (Run_boxing (names_of net algorithm) time_offset (Sweep lb)
                          (alg entry) False (kwargs entry)) w1))
      else if algorithm = ''merge'' then
        (let w2 = call Gc_collect (call Drop_shortest_paths w1);
             (new_start, w3) = time_time clock w2;
             w4 = call Rebuild_shortest_paths w3;
             (new_end, w5) = time_time clock w4;
             new_offset = new_end - new_start
         in case last_elem lb of
              Inl e \<Rightarrow> Inl e
            | Inr sz \<Rightarrow>
                (case lookup algs_lb algorithm of
                   Inl e \<Rightarrow> Inl e
                 | Inr entry \<Rightarrow>
                     Inr (call (Run_boxing (names_of net algorithm) new_offset (Single sz)
                                  (alg entry) True (kwargs entry)) w5)))
      else
        (let w2 = call Gc_collect (call Drop_shortest_paths w1);
             (new_start, w3) = time_time clock w2;
             w4 = call Rebuild_shortest_paths w3;
             (new_end, w5) = time_time clock w4;
             new_offset = new_end - new_start
         in case lookup algs_lb algorithm of
              Inl e \<Rightarrow> Inl e
            | Inr entry \<Rightarrow>
                Inr (call (Run_boxing (names_of net algorithm) new_offset (Sweep lb)
                             (alg entry) False (kwargs entry)) w5)))"

text \<open>
  The body of the loop \<^verbatim>\<open>for algorithm in algs_rb.keys()\<close>. Its \<^verbatim>\<open>if\<close> has no
  \<^verbatim>\<open>else\<close>: when the guard is false nothing is called.
\<close>

definition rb_body :: "string \<Rightarrow> real \<Rightarrow> int list \<Rightarrow> string \<Rightarrow> world \<Rightarrow> py_error + world" where
  "rb_body net time_offset rb algorithm w0 =
     (let w1 = call (Np_random_seed 137) (call (Random_seed 137) w0) in
      if algorithm \<noteq> ''merge'' then
        (case lookup algs_rb algorithm of
           Inl e \<Rightarrow> Inl e
         | Inr entry \<Rightarrow>
             Inr (call (Run_boxing (names_of net algorithm) time_offset (Sweep rb)
                          (alg entry) False (kwargs entry)) w1))
      else Inr w1)"

definition boxing_all :: "(nat \<Rightarrow> real) \<Rightarrow> string \<Rightarrow> int list \<Rightarrow> int list \<Rightarrow> py_error + world" where
  "boxing_all clock net lb rb =
     (let (start, w1) = time_time clock \<lparr>reads = 0, trace = []\<rparr>;
          w2 = call Get_dist_dict w1;
          (stop, w3) = time_time clock w2;
          time_offset = stop - start
      in case lookup algs_lb ''greedy'' of
           Inl e \<Rightarrow> Inl e
         | Inr g \<Rightarrow>
             (let w4 = call (Benchmark (names_of net ''greedy'') lb greedy_coloring 10 (kwargs g)) w3
              in case for_each (lb_body clock net time_offset lb) (keys algs_lb) w4 of
                   Inl e \<Rightarrow> Inl e
                 | Inr w5 \<Rightarrow> for_each (rb_body net time_offset rb) (keys algs_rb) w5))"

text \<open>
  What one iteration adds to the trace when it runs a registered algorithm over a whole
  sequence of box sizes: the two seedings and the call of \<^verbatim>\<open>run_boxing\<close>.
\<close>

definition sweep_calls :: "string \<Rightarrow> real \<Rightarrow> int list \<Rightarrow> string \<times> alg_entry \<Rightarrow> event list" where
  "sweep_calls net time_offset sizes ke =
     [Random_seed 137, Np_random_seed 137,
      Run_boxing (names_of net (fst ke)) time_offset (Sweep sizes)
        (alg (snd ke)) False (kwargs (snd ke))]"

text \<open>An event that runs the merge algorithm, under whichever name.\<close>

fun is_merge_run :: "event \<Rightarrow> bool" where
  "is_merge_run (Run_boxing n off sizes a m kw) = (a = merge_algorithm \<or> names_alg n = ''merge'')"
| "is_merge_run (Benchmark n sizes a k kw) = (a = merge_algorithm \<or> names_alg n = ''merge'')"
| "is_merge_run e = False"

text \<open>
  What the merge branch of the loop over \<^verbatim>\<open>algs_lb\<close> adds to the trace, given the
  two clock readings it takes and the box size it passes.
\<close>

definition merge_calls :: "string \<Rightarrow> real \<Rightarrow> real \<Rightarrow> int \<Rightarrow> event list" where
  "merge_calls net new_start new_end sz =
     [Random_seed 137, Np_random_seed 137, Drop_shortest_paths, Gc_collect,
      Time_time new_start, Rebuild_shortest_paths, Time_time new_end,
      Run_boxing (names_of net ''merge'') (new_end - new_start) (Single sz)
        merge_algorithm True [(''boxing'', Flag True)]]"

text \<open>What the fuzzy branch adds to the trace.\<close>

definition fuzzy_calls :: "string \<Rightarrow> real \<Rightarrow> real \<Rightarrow> int list \<Rightarrow> event list" where
  "fuzzy_calls net new_start new_end sizes =
     [Random_seed 137, Np_random_seed 137, Drop_shortest_paths, Gc_collect,
      Time_time new_start, Rebuild_shortest_paths, Time_time new_end,
      Run_boxing (names_of net ''fuzzy'') (new_end - new_start) (Sweep sizes)
        fuzzy False [(''boxing'', Flag True)]]"

text \<open>The calls before the first loop: the timed distance computation and the benchmark.\<close>

definition prelude_calls :: "(nat \<Rightarrow> real) \<Rightarrow> string \<Rightarrow> int list \<Rightarrow> event list" where
  "prelude_calls clock net lb =
     [Time_time (clock 0), Get_dist_dict, Time_time (clock 1),
      Benchmark (names_of net ''greedy'') lb greedy_coloring 10 [(''boxing'', Flag True)]]"

text \<open>
  The six calls of \<^verbatim>\<open>run_boxing\<close> that the registry \<^verbatim>\<open>algs_rb\<close> stands for, written
  out with their keyword arguments.
\<close>

definition rb_runs :: "string \<Rightarrow> real \<Rightarrow> int list \<Rightarrow> event list" where
  "rb_runs net time_offset rb =
     [Run_boxing (names_of net ''mcwr_0.75'') time_offset (Sweep rb) mcwr False
        [(''p'', Prob (3 / 4)), (''boxing'', Flag True)],
      Run_boxing (names_of net ''mcwr_0.5'') time_offset (Sweep rb) mcwr False
        [(''p'', Prob (1 / 2)), (''boxing'', Flag True)],
      Run_boxing (names_of net ''mcwr_0.25'') time_offset (Sweep rb) mcwr False
        [(''p'', Prob (1 / 4)), (''boxing'', Flag True)],
      Run_boxing (names_of net ''memb'') time_offset (Sweep rb) memb False
        [(''boxing'', Flag True)],
      Run_boxing (names_of net ''random_sequential'') time_offset (Sweep rb) random_sequential False
        [(''boxing'', Flag True)],
      Run_boxing (names_of net ''remcc'') time_offset (Sweep rb) remcc False
        [(''return_centres'', Flag False)]]"

fun is_run_boxing :: "event \<Rightarrow> bool" where
  "is_run_boxing (Run_boxing n off sizes a m kw) = True"
| "is_run_boxing e = False"

text \<open>
  The events that touch the distance cache of the network: the call of
  \<^verbatim>\<open>get_dist_dict\<close> and the two assignments to \<^verbatim>\<open>network.shortest_paths\<close>.
\<close>

fun is_cache_event :: "event \<Rightarrow> bool" where
  "is_cache_event Get_dist_dict = True"
| "is_cache_event Drop_shortest_paths = True"
| "is_cache_event Rebuild_shortest_paths = True"
| "is_cache_event e = False"

text \<open>
  The last thing done to the distance cache before the merge algorithm is run:
  \<^term>\<open>None\<close> when the trace touches the cache nowhere before that run.
\<close>

definition cache_before_merge :: "event list \<Rightarrow> event option" where
  "cache_before_merge tr =
     (case filter is_cache_event (takeWhile (\<lambda>e. \<not> is_merge_run e) tr) of
        [] \<Rightarrow> None
      | e # es \<Rightarrow> Some (last (e # es)))"

text \<open>The runs of the merge algorithm in the trace of a call of \<^verbatim>\<open>boxing_all\<close>.\<close>

definition merge_runs :: "py_error + world \<Rightarrow> event list" where
  "merge_runs r = (case r of Inl e \<Rightarrow> [] | Inr w \<Rightarrow> filter is_merge_run (trace w))"

text \<open>The calls of \<^verbatim>\<open>run_boxing\<close> in the trace of a call of \<^verbatim>\<open>boxing_all\<close>.\<close>

definition boxing_runs :: "py_error + world \<Rightarrow> event list" where
  "boxing_runs r = (case r of Inl e \<Rightarrow> [] | Inr w \<Rightarrow> filter is_run_boxing (trace w))"

text \<open>A clock on which only the third and later readings have advanced, by 100.\<close>

definition late_clock :: "nat \<Rightarrow> real" where
  "late_clock i = (if i < 3 then 0 else 100)"

section \<open>Graphs and the largest connected component\<close>

text \<open>
  \<^verbatim>\<open>read_max_connected_component(path, header_length)\<close> of the notebook reads a graph
  with \<^verbatim>\<open>boxes.read_from_edgelist\<close> and hands its largest connected component to
  \<^verbatim>\<open>boxes.network\<close>. The graph is a \<^verbatim>\<open>networkx.Graph\<close>: undirected, its nodes
  kept in insertion order, every endpoint of an edge a node. The reader is not part of
  the notebook, so the graph it returns is the argument of the model.
\<close>

record 'a graph =
  nodes :: "'a list"
  edges :: "('a \<times> 'a) list"

definition wf_graph :: "'a graph \<Rightarrow> bool" where
  "wf_graph g \<longleftrightarrow>
     distinct (nodes g) \<and> (\<forall>e \<in> set (edges g). fst e \<in> set (nodes g) \<and> snd e \<in> set (nodes g))"

text \<open>\<^verbatim>\<open>G.adj[v]\<close>: the neighbours of \<open>v\<close>, an edge being usable in both directions.\<close>

definition neighbors :: "'a graph \<Rightarrow> 'a \<Rightarrow> 'a list" where
  "neighbors g v =
     map snd (filter (\<lambda>e. fst e = v) (edges g)) @ map fst (filter (\<lambda>e. snd e = v) (edges g))"

text \<open>
  networkx's breadth-first search \<^verbatim>\<open>_plain_bfs\<close>, level by level: \<open>seen\<close> holds the
  nodes found so far, \<open>thislevel\<close> the ones found last; the next level is made of the
  neighbours of \<open>thislevel\<close> that are not seen yet, and the search stops when there is
  none. The result is the set of nodes found, kept as a list without repetition.
\<close>

definition next_level :: "'a graph \<Rightarrow> 'a list \<Rightarrow> 'a list \<Rightarrow> 'a list" where
  "next_level g seen thislevel =
     remdups (filter (\<lambda>w. w \<notin> set seen) (concat (map (neighbors g) thislevel)))"

definition endpoints :: "'a graph \<Rightarrow> 'a set" where
  "endpoints g = fst ` set (edges g) \<union> snd ` set (edges g)"

function plain_bfs :: "'a graph \<Rightarrow> 'a list \<Rightarrow> 'a list \<Rightarrow> 'a list" where
  "plain_bfs g seen thislevel =
     (if next_level g seen thislevel = [] then seen
      else plain_bfs g (seen @ next_level g seen thislevel) (next_level g seen thislevel))"
  by pat_completeness auto
termination
proof (relation "measure (\<lambda>(g, seen, thislevel). card (endpoints g - set seen))")
  show "wf (measure (\<lambda>(g, seen, thislevel). card (endpoints g - set seen)))"
    by simp
next
  fix g :: "'a graph" and seen thislevel :: "'a list"
  assume ne: "next_level g seen thislevel \<noteq> []"
  have sub: "set (next_level g seen thislevel) \<subseteq> endpoints g - set seen"
    by (auto simp: next_level_def neighbors_def endpoints_def)
  from ne obtain w where w: "w \<in> set (next_level g seen thislevel)"
    by (cases "next_level g seen thislevel") auto
  have fin: "finite (endpoints g - set seen)"
    by (simp add: endpoints_def)
  have "endpoints g - set (seen @ next_level g seen thislevel) \<subset> endpoints g - set seen"
    using w sub by auto
  then have "card (endpoints g - set (seen @ next_level g seen thislevel))
               < card (endpoints g - set seen)"
    using fin by (rule psubset_card_mono [rotated])
  then show "((g, seen @ next_level g seen thislevel, next_level g seen thislevel),
              (g, seen, thislevel))
             \<in> measure (\<lambda>(g, seen, thislevel). card (endpoints g - set seen))"
    by simp
qed

declare plain_bfs.simps [simp del]

text \<open>
  \<^verbatim>\<open>nx.connected_components(G)\<close>: for every node, in order, that no earlier component
  holds, the set of nodes a search from it finds.
\<close>

fun components_from :: "'a graph \<Rightarrow> 'a list \<Rightarrow> 'a list \<Rightarrow> 'a list list" where
  "components_from g seen [] = []"
| "components_from g seen (v # vs) =
     (if v \<in> set seen then components_from g seen vs
      else plain_bfs g [v] [v] # components_from g (seen @ plain_bfs g [v] [v]) vs)"

definition connected_components :: "'a graph \<Rightarrow> 'a list list" where
  "connected_components g = components_from g [] (nodes g)"

text \<open>
  \<^verbatim>\<open>nx.is_connected(G)\<close> raises \<^verbatim>\<open>NetworkXPointlessConcept\<close> on the graph without
  nodes; otherwise it searches from the first node and compares the number of nodes
  found with the number of nodes.
\<close>

definition is_connected :: "'a graph \<Rightarrow> py_error + bool" where
  "is_connected g =
     (case nodes g of
        [] \<Rightarrow> Inl NetworkXPointlessConcept
      | v # vs \<Rightarrow> Inr (length (plain_bfs g [v] [v]) = length (nodes g)))"

text \<open>
  \<^verbatim>\<open>max(components, key=len)\<close>: the first of the longest components;
  \<^verbatim>\<open>ValueError\<close> when there is none.
\<close>

definition max_key_len :: "'a list list \<Rightarrow> py_error + 'a list" where
  "max_key_len cs =
     (case cs of
        [] \<Rightarrow> Inl ValueError
      | c # rest \<Rightarrow> Inr (foldl (\<lambda>best x. if length best < length x then x else best) c rest))"

text \<open>\<^verbatim>\<open>G.subgraph(ns)\<close>: the nodes in \<open>ns\<close> and the edges between them.\<close>

definition subgraph :: "'a graph \<Rightarrow> 'a list \<Rightarrow> 'a graph" where
  "subgraph g ns =
     \<lparr>nodes = filter (\<lambda>v. v \<in> set ns) (nodes g),
      edges = filter (\<lambda>e. fst e \<in> set ns \<and> snd e \<in> set ns) (edges g)\<rparr>"

text \<open>
  Modelled from the spec: the class \<^verbatim>\<open>boxes.network\<close> is not part of the notebook.
  The specification describes a Network as a graph with a lazily filled cache
  \<^verbatim>\<open>shortest_paths\<close>, from a source node to a target node to their distance, which is
  \<^verbatim>\<open>None\<close> until it is computed.
\<close>

record 'a network =
  graph :: "'a graph"
  shortest_paths :: "('a \<times> ('a \<times> nat) list) list option"

definition network_of :: "'a graph \<Rightarrow> 'a network" where
  "network_of g = \<lparr>graph = g, shortest_paths = None\<rparr>"

definition read_max_connected_component :: "'a graph \<Rightarrow> py_error + 'a network" where
  "read_max_connected_component g =
     (case is_connected g of
        Inl e \<Rightarrow> Inl e
      | Inr c \<Rightarrow>
          (if \<not> c then
             (case max_key_len (connected_components g) of
                Inl e \<Rightarrow> Inl e
              | Inr m \<Rightarrow> Inr (network_of (subgraph g m)))
           else Inr (network_of g)))"

text \<open>
  The notions the claim is stated in: two nodes are joined when an edge links them in
  either direction; the component of a node is everything a path of edges reaches from
  it; a graph is connected when every node reaches every node.
\<close>

definition edge_rel :: "'a graph \<Rightarrow> ('a \<times> 'a) set" where
  "edge_rel g = {(u, v). (u, v) \<in> set (edges g) \<or> (v, u) \<in> set (edges g)}"

definition component_of :: "'a graph \<Rightarrow> 'a \<Rightarrow> 'a set" where
  "component_of g v = {u. (v, u) \<in> (edge_rel g)\<^sup>*}"

definition is_component :: "'a graph \<Rightarrow> 'a set \<Rightarrow> bool" where
  "is_component g c \<longleftrightarrow> (\<exists>v \<in> set (nodes g). c = component_of g v)"

definition graph_connected :: "'a graph \<Rightarrow> bool" where
  "graph_connected g \<longleftrightarrow> (\<forall>u \<in> set (nodes g). \<forall>v \<in> set (nodes g). (u, v) \<in> (edge_rel g)\<^sup>*)"

section \<open>Properties of the log paths\<close>

lemma str_in_sublist: "str_in sub s \<longleftrightarrow> sublist sub s"
  by (induction s) (auto simp: sublist_Cons_right)

text \<open>
  Claim C6, as the specification states it, fails on a grid network: for the name
  \<^verbatim>\<open>grid2d_20\<close> the directory is \<^verbatim>\<open>grid2d/20\<close>, not the network's name, so
  the path is not \<^verbatim>\<open>{base}/{network}/{network}_{algorithm}.txt\<close> for the base
  \<^verbatim>\<open>../../result_logs\<close>, and it does not end in
  \<^verbatim>\<open>/grid2d_20/grid2d_20_greedy.txt\<close> for any base at all.
\<close>

theorem path_grid_counterexample:
  "log_path ''grid2d_20'' (Some ''greedy'') False = ''../../result_logs/grid2d/20/grid2d_20_greedy.txt''
   \<and> log_path ''grid2d_20'' (Some ''greedy'') False \<noteq> convention_path result_logs ''grid2d_20'' ''greedy''
   \<and> \<not> suffix ''/grid2d_20/grid2d_20_greedy.txt'' (log_path ''grid2d_20'' (Some ''greedy'') False)"
  by (simp add: log_path_def convention_path_def result_logs_def last_two_def suffix_to_prefix)

text \<open>
  Claim C6, amended: for every algorithm name, a network name that does not contain
  \<^verbatim>\<open>grid\<close> gets the path \<^verbatim>\<open>../../result_logs/{network}/{network}_{algorithm}.txt\<close>;
  a network name that contains \<^verbatim>\<open>grid\<close> gets
  \<^verbatim>\<open>../../result_logs/grid2d/{last two characters of network}/{network}_{algorithm}.txt\<close>;
  and in both cases the benchmark variant is the same path with \<^verbatim>\<open>_benchmark.txt\<close>
  in place of \<^verbatim>\<open>.txt\<close>.
\<close>

theorem path_convention:
  "(\<not> str_in ''grid'' net \<longrightarrow>
      log_path net (Some a) False = convention_path result_logs net a
    \<and> log_path net (Some a) True = convention_bench_path result_logs net a)
   \<and> (str_in ''grid'' net \<longrightarrow>
      log_path net (Some a) False =
        result_logs @ ''/grid2d/'' @ last_two net @ ''/'' @ net @ ''_'' @ a @ ''.txt''
    \<and> log_path net (Some a) True =
        result_logs @ ''/grid2d/'' @ last_two net @ ''/'' @ net @ ''_'' @ a @ ''_benchmark.txt'')
   \<and> (\<exists>p. log_path net (Some a) False = p @ ''.txt''
          \<and> log_path net (Some a) True = p @ ''_benchmark.txt'')"
  by (simp add: log_path_def convention_path_def convention_bench_path_def result_logs_def Let_def)

theorem path_convention_witness:
  "\<not> str_in ''grid'' ''facebook_caltech_demo''
   \<and> log_path ''facebook_caltech_demo'' (Some ''greedy'') False =
       ''../../result_logs/facebook_caltech_demo/facebook_caltech_demo_greedy.txt''
   \<and> log_path ''facebook_caltech_demo'' (Some ''greedy'') True =
       ''../../result_logs/facebook_caltech_demo/facebook_caltech_demo_greedy_benchmark.txt''
   \<and> str_in ''grid'' ''grid2d_30''
   \<and> log_path ''grid2d_30'' (Some ''cbb'') True =
       ''../../result_logs/grid2d/30/grid2d_30_cbb_benchmark.txt''"
proof -
  have n: "\<not> str_in ''grid'' ''facebook_caltech_demo''"
    by simp
  have g: "str_in ''grid'' ''grid2d_30''"
    by simp
  from n path_convention [of "''facebook_caltech_demo''" "''greedy''"]
  have a: "log_path ''facebook_caltech_demo'' (Some ''greedy'') False =
             convention_path result_logs ''facebook_caltech_demo'' ''greedy''
         \<and> log_path ''facebook_caltech_demo'' (Some ''greedy'') True =
             convention_bench_path result_logs ''facebook_caltech_demo'' ''greedy''"
    by blast
  from g path_convention [of "''grid2d_30''" "''cbb''"]
  have b: "log_path ''grid2d_30'' (Some ''cbb'') True =
             result_logs @ ''/grid2d/'' @ last_two ''grid2d_30'' @ ''/'' @ ''grid2d_30'' @ ''_'' @ ''cbb'' @ ''_benchmark.txt''"
    by blast
  show ?thesis
    using n g a b
    by (simp add: convention_path_def convention_bench_path_def result_logs_def last_two_def)
qed

section \<open>Properties of \<open>boxing_all\<close>\<close>

lemma rb_loop_trace:
  "for_each (rb_body net off rb) (keys algs_rb) w =
     Inr (w\<lparr>trace := trace w @ concat (map (sweep_calls net off rb) algs_rb)\<rparr>)"
  by (simp add: keys_def algs_rb_def rb_body_def lookup_def call_def sweep_calls_def)

lemma lb_loop_trace:
  "lb \<noteq> [] \<Longrightarrow>
   for_each (lb_body clock net off lb) (keys algs_lb) w =
     Inr (w\<lparr>reads := reads w + 4,
            trace := trace w
              @ sweep_calls net off lb (algs_lb ! 0)
              @ sweep_calls net off lb (algs_lb ! 1)
              @ merge_calls net (clock (reads w)) (clock (reads w + 1)) (last lb)
              @ sweep_calls net off lb (algs_lb ! 3)
              @ fuzzy_calls net (clock (reads w + 2)) (clock (reads w + 3)) lb\<rparr>)"
  by (simp add: keys_def algs_lb_def lb_body_def lookup_def call_def sweep_calls_def
      merge_calls_def fuzzy_calls_def time_time_def last_elem_def Let_def eval_nat_numeral)

lemma lookup_greedy:
  "lookup algs_lb ''greedy'' = Inr \<lparr>alg = greedy_coloring, kwargs = [(''boxing'', Flag True)]\<rparr>"
  by (simp add: lookup_def algs_lb_def)

text \<open>
  The whole run, when \<^verbatim>\<open>lb\<close> is not empty: the timed distance computation and the
  benchmark, then cbb, greedy, merge, obca and fuzzy, then the six rb algorithms.
\<close>

lemma boxing_all_trace:
  "lb \<noteq> [] \<Longrightarrow>
   boxing_all clock net lb rb =
     Inr \<lparr>reads = 6,
          trace = prelude_calls clock net lb
              @ sweep_calls net (clock 1 - clock 0) lb (algs_lb ! 0)
              @ sweep_calls net (clock 1 - clock 0) lb (algs_lb ! 1)
              @ merge_calls net (clock 2) (clock 3) (last lb)
              @ sweep_calls net (clock 1 - clock 0) lb (algs_lb ! 3)
              @ fuzzy_calls net (clock 4) (clock 5) lb
              @ concat (map (sweep_calls net (clock 1 - clock 0) rb) algs_rb)\<rparr>"
  unfolding boxing_all_def
  by (simp add: lookup_greedy lb_loop_trace rb_loop_trace time_time_def call_def
        prelude_calls_def Let_def eval_nat_numeral)

text \<open>With an empty \<^verbatim>\<open>lb\<close> the merge branch raises at \<^verbatim>\<open>lb[-1]\<close>.\<close>

lemma boxing_all_empty_lb: "boxing_all clock net [] rb = Inl IndexError"
  by (simp add: boxing_all_def keys_def algs_lb_def lb_body_def lookup_def call_def
      time_time_def last_elem_def Let_def)

lemma sorted_last_Max: "sorted (xs :: int list) \<Longrightarrow> xs \<noteq> [] \<Longrightarrow> last xs = Max (set xs)"
proof (induction xs)
  case Nil
  then show ?case by simp
next
  case (Cons x xs)
  show ?case
  proof (cases "xs = []")
    case True
    then show ?thesis by simp
  next
    case False
    with Cons have l: "last xs = Max (set xs)" by simp
    from Cons.prems False have "x \<le> last xs" by simp
    with l have "x \<le> Max (set xs)" by simp
    with l show ?thesis using False by (simp add: max_def)
  qed
qed

lemma merge_run_unique:
  "lb \<noteq> [] \<Longrightarrow>
   merge_runs (boxing_all clock net lb rb) =
     [Run_boxing (names_of net ''merge'') (clock 3 - clock 2) (Single (last lb))
        merge_algorithm True [(''boxing'', Flag True)]]"
  by (simp add: merge_runs_def boxing_all_trace prelude_calls_def sweep_calls_def
      merge_calls_def fuzzy_calls_def names_of_def algs_lb_def algs_rb_def)

lemma cache_rebuilt_before_merge:
  "lb \<noteq> [] \<Longrightarrow> boxing_all clock net lb rb = Inr w \<Longrightarrow>
   cache_before_merge (trace w) = Some Rebuild_shortest_paths"
  by (auto simp: cache_before_merge_def boxing_all_trace prelude_calls_def sweep_calls_def
      merge_calls_def fuzzy_calls_def names_of_def algs_lb_def algs_rb_def)

text \<open>
  Claim C8 as stated fails twice. With \<^verbatim>\<open>lb = [5, 2]\<close> the merge algorithm is run for
  box size 2, the last element, while the maximum requested size is 5. And the cache is
  not left dropped: the last thing done to it before merge runs is the rebuild, and the
  offset handed to \<^verbatim>\<open>run_boxing\<close> for merge is the duration of that rebuild. On a clock
  where only the rebuild of the merge branch takes time (100), merge gets the offset 100
  while the shared \<^verbatim>\<open>time_offset\<close>, as the first sweep (cbb) receives it, is 0.
\<close>

theorem merge_cache_counterexample:
  "merge_runs (boxing_all late_clock ''demo'' [5, 2] [1]) =
     [Run_boxing (names_of ''demo'' ''merge'') 100 (Single 2) merge_algorithm True
        [(''boxing'', Flag True)]]
   \<and> Max (set [5, 2 :: int]) = 5
   \<and> hd (boxing_runs (boxing_all late_clock ''demo'' [5, 2] [1])) =
       Run_boxing (names_of ''demo'' ''cbb'') 0 (Sweep [5, 2]) cbb False [(''boxing'', Flag True)]
   \<and> (\<exists>w. boxing_all late_clock ''demo'' [5, 2] [1] = Inr w
          \<and> cache_before_merge (trace w) = Some Rebuild_shortest_paths)"
proof -
  have ne: "[5, 2] \<noteq> ([] :: int list)" by simp
  have a: "merge_runs (boxing_all late_clock ''demo'' [5, 2] [1]) =
     [Run_boxing (names_of ''demo'' ''merge'') 100 (Single 2) merge_algorithm True
        [(''boxing'', Flag True)]]"
    by (simp add: merge_run_unique [OF ne] late_clock_def)
  have b: "Max (set [5, 2 :: int]) = 5" by simp
  have c: "hd (boxing_runs (boxing_all late_clock ''demo'' [5, 2] [1])) =
       Run_boxing (names_of ''demo'' ''cbb'') 0 (Sweep [5, 2]) cbb False [(''boxing'', Flag True)]"
    by (simp add: boxing_runs_def boxing_all_trace [OF ne] prelude_calls_def sweep_calls_def
        algs_lb_def late_clock_def)
  have d: "\<exists>w. boxing_all late_clock ''demo'' [5, 2] [1] = Inr w
          \<and> cache_before_merge (trace w) = Some Rebuild_shortest_paths"
    using cache_rebuilt_before_merge [OF ne] boxing_all_trace [OF ne] by blast
  from a b c d show ?thesis by blast
qed

text \<open>
  Claim C8, amended: in a run of \<^verbatim>\<open>boxing_all\<close> with a non-empty \<^verbatim>\<open>lb\<close> the merge
  algorithm is run exactly once, through one call of \<^verbatim>\<open>run_boxing\<close> with
  \<^verbatim>\<open>merge_alg=True\<close> whose box size is the single integer \<^verbatim>\<open>lb[-1]\<close>, the last
  element of \<^verbatim>\<open>lb\<close>, and not the sequence \<^verbatim>\<open>lb\<close>; that element is the maximum
  requested size when \<^verbatim>\<open>lb\<close> is ascending. Before that call
  \<^verbatim>\<open>network.shortest_paths\<close> is set to \<^verbatim>\<open>None\<close> and the garbage collector is run,
  but the cache is then rebuilt between two clock readings of their own, so that the
  rebuild is the last thing done to the cache before merge runs; and the offset handed to
  \<^verbatim>\<open>run_boxing\<close> is the difference of those two readings (\<^verbatim>\<open>new_offset\<close>, the
  duration of the rebuild), not the shared \<^verbatim>\<open>time_offset\<close> measured around
  \<^verbatim>\<open>get_dist_dict\<close>. The events of the merge branch are spelled out in
  \<^term>\<open>merge_calls\<close>.
\<close>

theorem merge_runs_once_on_last_size:
  assumes "lb \<noteq> []"
  shows "\<exists>w pre post.
           boxing_all clock net lb rb = Inr w
         \<and> trace w = pre @ merge_calls net (clock 2) (clock 3) (last lb) @ post
         \<and> (\<forall>e \<in> set pre \<union> set post. \<not> is_merge_run e)
         \<and> merge_runs (boxing_all clock net lb rb) =
             [Run_boxing (names_of net ''merge'') (clock 3 - clock 2) (Single (last lb))
                merge_algorithm True [(''boxing'', Flag True)]]
         \<and> cache_before_merge (trace w) = Some Rebuild_shortest_paths
         \<and> (sorted lb \<longrightarrow> last lb = Max (set lb))"
proof -
  let ?off = "clock 1 - clock 0"
  let ?pre = "prelude_calls clock net lb
              @ sweep_calls net ?off lb (algs_lb ! 0)
              @ sweep_calls net ?off lb (algs_lb ! 1)"
  let ?post = "sweep_calls net ?off lb (algs_lb ! 3)
              @ fuzzy_calls net (clock 4) (clock 5) lb
              @ concat (map (sweep_calls net ?off rb) algs_rb)"
  let ?w = "\<lparr>reads = 6, trace = ?pre @ merge_calls net (clock 2) (clock 3) (last lb) @ ?post\<rparr>"
  have run: "boxing_all clock net lb rb = Inr ?w"
    using assms by (simp add: boxing_all_trace)
  have pre: "\<forall>e \<in> set ?pre. \<not> is_merge_run e"
    by (simp add: prelude_calls_def sweep_calls_def names_of_def algs_lb_def)
  have post: "\<forall>e \<in> set ?post. \<not> is_merge_run e"
    by (simp add: sweep_calls_def fuzzy_calls_def names_of_def algs_lb_def algs_rb_def)
  have mx: "sorted lb \<longrightarrow> last lb = Max (set lb)"
    using assms by (simp add: sorted_last_Max)
  have tr: "trace ?w = ?pre @ merge_calls net (clock 2) (clock 3) (last lb) @ ?post"
    by simp
  have one: "merge_runs (boxing_all clock net lb rb) =
             [Run_boxing (names_of net ''merge'') (clock 3 - clock 2) (Single (last lb))
                merge_algorithm True [(''boxing'', Flag True)]]"
    using assms by (rule merge_run_unique)
  have cb: "cache_before_merge (trace ?w) = Some Rebuild_shortest_paths"
    using assms run by (rule cache_rebuilt_before_merge)
  from run tr pre post one cb mx show ?thesis
    by (intro exI [of _ ?w] exI [of _ ?pre] exI [of _ ?post]) (simp only: ball_Un simp_thms)
qed

theorem merge_runs_once_witness:
  "[1, 2, 3, 4, 5, 6] \<noteq> ([] :: int list)
   \<and> sorted [1, 2, 3, 4, 5, 6 :: int]
   \<and> (\<exists>w pre post.
         boxing_all real ''facebook_caltech_demo'' [1, 2, 3, 4, 5, 6] [1, 2, 3, 4, 5, 6] = Inr w
       \<and> trace w = pre @ merge_calls ''facebook_caltech_demo'' 2 3 6 @ post
       \<and> (\<forall>e \<in> set pre \<union> set post. \<not> is_merge_run e)
       \<and> cache_before_merge (trace w) = Some Rebuild_shortest_paths)
   \<and> merge_runs (boxing_all real ''facebook_caltech_demo'' [1, 2, 3, 4, 5, 6] [1, 2, 3, 4, 5, 6]) =
       [Run_boxing (names_of ''facebook_caltech_demo'' ''merge'') 1 (Single 6)
          merge_algorithm True [(''boxing'', Flag True)]]
   \<and> last [1, 2, 3, 4, 5, 6 :: int] = Max (set [1, 2, 3, 4, 5, 6])"
proof -
  have ne: "[1, 2, 3, 4, 5, 6] \<noteq> ([] :: int list)" by simp
  have so: "sorted [1, 2, 3, 4, 5, 6 :: int]" by simp
  from merge_runs_once_on_last_size [OF ne, of real "''facebook_caltech_demo''" "[1, 2, 3, 4, 5, 6]"]
  obtain w pre post where
    "boxing_all real ''facebook_caltech_demo'' [1, 2, 3, 4, 5, 6] [1, 2, 3, 4, 5, 6] = Inr w"
    "trace w = pre @ merge_calls ''facebook_caltech_demo'' (real 2) (real 3) (last [1, 2, 3, 4, 5, 6]) @ post"
    "\<forall>e \<in> set pre \<union> set post. \<not> is_merge_run e"
    "merge_runs (boxing_all real ''facebook_caltech_demo'' [1, 2, 3, 4, 5, 6] [1, 2, 3, 4, 5, 6]) =
       [Run_boxing (names_of ''facebook_caltech_demo'' ''merge'') (real 3 - real 2)
          (Single (last [1, 2, 3, 4, 5, 6])) merge_algorithm True [(''boxing'', Flag True)]]"
    "cache_before_merge (trace w) = Some Rebuild_shortest_paths"
    "sorted [1, 2, 3, 4, 5, 6 :: int] \<longrightarrow> last [1, 2, 3, 4, 5, 6 :: int] = Max (set [1, 2, 3, 4, 5, 6])"
    by blast
  with ne so show ?thesis
    by (intro conjI exI [of _ w] exI [of _ pre] exI [of _ post]) simp_all
qed

text \<open>
  Claim C10: no key of \<^verbatim>\<open>algs_rb\<close> is \<^verbatim>\<open>'merge'\<close>, so the guard
  \<^verbatim>\<open>algorithm!='merge'\<close> of the second loop holds in every iteration: the loop never
  raises and never skips, each iteration seeds the generators and calls
  \<^verbatim>\<open>run_boxing\<close>, and the calls are those of mcwr with \<open>p\<close> = 0.75, 0.5 and 0.25, memb,
  random_sequential and remcc, each over the sequence \<^verbatim>\<open>rb\<close> and with the offset given
  to the loop. In \<^verbatim>\<open>boxing_all\<close> (with a non-empty \<^verbatim>\<open>lb\<close>, so that the first loop
  does not raise) that offset is \<^verbatim>\<open>time_offset\<close>, the difference of the two clock
  readings around \<^verbatim>\<open>get_dist_dict\<close>.
\<close>

theorem rb_loop_never_skips:
  "(\<forall>k \<in> set (keys algs_rb). k \<noteq> ''merge'')
   \<and> for_each (rb_body net off rb) (keys algs_rb) w =
       Inr (w\<lparr>trace := trace w @ concat (map (sweep_calls net off rb) algs_rb)\<rparr>)
   \<and> filter is_run_boxing (concat (map (sweep_calls net off rb) algs_rb)) = rb_runs net off rb
   \<and> (lb \<noteq> [] \<longrightarrow>
        (\<exists>w' mid. boxing_all clock net lb rb = Inr w'
           \<and> trace w' = prelude_calls clock net lb @ mid
                @ concat (map (sweep_calls net (clock 1 - clock 0) rb) algs_rb)))"
proof (intro conjI impI)
  show "\<forall>k \<in> set (keys algs_rb). k \<noteq> ''merge''"
    by (simp add: keys_def algs_rb_def)
  show "for_each (rb_body net off rb) (keys algs_rb) w =
       Inr (w\<lparr>trace := trace w @ concat (map (sweep_calls net off rb) algs_rb)\<rparr>)"
    by (rule rb_loop_trace)
  show "filter is_run_boxing (concat (map (sweep_calls net off rb) algs_rb)) = rb_runs net off rb"
    by (simp add: algs_rb_def sweep_calls_def rb_runs_def)
next
  assume "lb \<noteq> []"
  then show "\<exists>w' mid. boxing_all clock net lb rb = Inr w'
           \<and> trace w' = prelude_calls clock net lb @ mid
                @ concat (map (sweep_calls net (clock 1 - clock 0) rb) algs_rb)"
    by (simp add: boxing_all_trace)
qed

theorem rb_loop_never_skips_witness:
  "[1, 2, 3, 4, 5, 6] \<noteq> ([] :: int list)
   \<and> ''remcc'' \<in> set (keys algs_rb) \<and> ''remcc'' \<noteq> ''merge''
   \<and> for_each (rb_body ''facebook_caltech_demo'' 1 [1, 2, 3, 4, 5, 6]) (keys algs_rb)
        \<lparr>reads = 0, trace = []\<rparr> =
       Inr \<lparr>reads = 0,
            trace = concat (map (sweep_calls ''facebook_caltech_demo'' 1 [1, 2, 3, 4, 5, 6]) algs_rb)\<rparr>
   \<and> (\<exists>w' mid.
         boxing_all real ''facebook_caltech_demo'' [1, 2, 3, 4, 5, 6] [1, 2, 3, 4, 5, 6] = Inr w'
       \<and> trace w' = prelude_calls real ''facebook_caltech_demo'' [1, 2, 3, 4, 5, 6] @ mid
            @ concat (map (sweep_calls ''facebook_caltech_demo'' 1 [1, 2, 3, 4, 5, 6]) algs_rb))"
proof -
  have ne: "[1, 2, 3, 4, 5, 6] \<noteq> ([] :: int list)" by simp
  have k: "''remcc'' \<in> set (keys algs_rb)" by (simp add: keys_def algs_rb_def)
  note t = rb_loop_never_skips [of "''facebook_caltech_demo''" 1 "[1, 2, 3, 4, 5, 6]"
      "\<lparr>reads = 0, trace = []\<rparr>" "[1, 2, 3, 4, 5, 6]" real]
  from t k have g: "''remcc'' \<noteq> ''merge''" by blast
  from t have l: "for_each (rb_body ''facebook_caltech_demo'' 1 [1, 2, 3, 4, 5, 6]) (keys algs_rb)
        \<lparr>reads = 0, trace = []\<rparr> =
       Inr \<lparr>reads = 0,
            trace = concat (map (sweep_calls ''facebook_caltech_demo'' 1 [1, 2, 3, 4, 5, 6]) algs_rb)\<rparr>"
    by simp
  from t ne have b: "\<exists>w' mid.
         boxing_all real ''facebook_caltech_demo'' [1, 2, 3, 4, 5, 6] [1, 2, 3, 4, 5, 6] = Inr w'
       \<and> trace w' = prelude_calls real ''facebook_caltech_demo'' [1, 2, 3, 4, 5, 6] @ mid
            @ concat (map (sweep_calls ''facebook_caltech_demo'' 1 [1, 2, 3, 4, 5, 6]) algs_rb)"
    by simp
  from ne k g l b show ?thesis by blast
qed

section \<open>Properties of the largest connected component\<close>

lemma in_neighbors: "w \<in> set (neighbors g u) \<longleftrightarrow> (u, w) \<in> edge_rel g"
  by (force simp: neighbors_def edge_rel_def)

lemma set_next_level:
  "set (next_level g seen lvl) = {w. w \<notin> set seen \<and> (\<exists>u \<in> set lvl. (u, w) \<in> edge_rel g)}"
  by (auto simp: next_level_def in_neighbors)

lemma distinct_next_level: "distinct (next_level g seen lvl)"
  by (simp add: next_level_def)

lemma edge_rel_sym: "(u, v) \<in> edge_rel g \<Longrightarrow> (v, u) \<in> edge_rel g"
  by (auto simp: edge_rel_def)

lemma sym_edge_rel: "sym (edge_rel g)"
  by (auto simp: sym_def edge_rel_def)

lemma reach_sym: "(u, v) \<in> (edge_rel g)\<^sup>* \<Longrightarrow> (v, u) \<in> (edge_rel g)\<^sup>*"
  using sym_edge_rel [of g] by (metis sym_rtrancl symD)

lemma closed_contains_component:
  assumes "s \<in> S" and "\<forall>u \<in> S. \<forall>w. (u, w) \<in> edge_rel g \<longrightarrow> w \<in> S"
  shows "component_of g s \<subseteq> S"
proof
  fix v assume "v \<in> component_of g s"
  then have "(s, v) \<in> (edge_rel g)\<^sup>*" by (simp add: component_of_def)
  then show "v \<in> S"
    using assms by (induction rule: rtrancl_induct) auto
qed

lemma plain_bfs_set:
  assumes "s \<in> set seen" and "set lvl \<subseteq> set seen" and "set seen \<subseteq> component_of g s"
    and "\<forall>u \<in> set seen - set lvl. \<forall>w. (u, w) \<in> edge_rel g \<longrightarrow> w \<in> set seen"
  shows "set (plain_bfs g seen lvl) = component_of g s"
  using assms
proof (induction g seen lvl rule: plain_bfs.induct)
  case (1 g seen lvl)
  let ?nl = "next_level g seen lvl"
  show ?case
  proof (cases "?nl = []")
    case True
    then have "set ?nl = {}" by simp
    then have "\<forall>u \<in> set lvl. \<forall>w. (u, w) \<in> edge_rel g \<longrightarrow> w \<in> set seen"
      unfolding set_next_level by blast
    with "1.prems"(4) have "\<forall>u \<in> set seen. \<forall>w. (u, w) \<in> edge_rel g \<longrightarrow> w \<in> set seen"
      by blast
    with "1.prems"(1) have "component_of g s \<subseteq> set seen"
      by (rule closed_contains_component)
    with "1.prems"(3) True show ?thesis
      by (simp add: plain_bfs.simps)
  next
    case False
    have a: "s \<in> set (seen @ ?nl)" using "1.prems"(1) by simp
    have b: "set ?nl \<subseteq> set (seen @ ?nl)" by simp
    have c: "set (seen @ ?nl) \<subseteq> component_of g s"
    proof -
      have "set ?nl \<subseteq> component_of g s"
      proof
        fix w assume "w \<in> set ?nl"
        then obtain u where u: "u \<in> set lvl" "(u, w) \<in> edge_rel g"
          unfolding set_next_level by blast
        with "1.prems"(2,3) have "(s, u) \<in> (edge_rel g)\<^sup>*"
          by (auto simp: component_of_def)
        with u(2) show "w \<in> component_of g s"
          by (simp add: component_of_def rtrancl.rtrancl_into_rtrancl)
      qed
      with "1.prems"(3) show ?thesis by simp
    qed
    have d: "\<forall>u \<in> set (seen @ ?nl) - set ?nl. \<forall>w. (u, w) \<in> edge_rel g \<longrightarrow> w \<in> set (seen @ ?nl)"
    proof (intro ballI allI impI)
      fix u w assume u: "u \<in> set (seen @ ?nl) - set ?nl" and e: "(u, w) \<in> edge_rel g"
      then have us: "u \<in> set seen" by auto
      show "w \<in> set (seen @ ?nl)"
      proof (cases "u \<in> set lvl")
        case True
        with e show ?thesis unfolding set_append set_next_level by blast
      next
        case False
        with us e "1.prems"(4) show ?thesis by auto
      qed
    qed
    from "1.IH" [OF False a b c d] False show ?thesis
      by (simp add: plain_bfs.simps [of g seen lvl])
  qed
qed

lemma plain_bfs_distinct: "distinct seen \<Longrightarrow> distinct (plain_bfs g seen lvl)"
proof (induction g seen lvl rule: plain_bfs.induct)
  case (1 g seen lvl)
  show ?case
  proof (cases "next_level g seen lvl = []")
    case True
    with "1.prems" show ?thesis by (simp add: plain_bfs.simps)
  next
    case False
    have "distinct (seen @ next_level g seen lvl)"
      using "1.prems" by (auto simp: distinct_next_level set_next_level)
    from "1.IH" [OF False this] False show ?thesis
      by (simp add: plain_bfs.simps [of g seen lvl])
  qed
qed

lemma bfs_component: "set (plain_bfs g [v] [v]) = component_of g v"
  by (rule plain_bfs_set) (auto simp: component_of_def)

lemma bfs_distinct: "distinct (plain_bfs g [v] [v])"
  by (rule plain_bfs_distinct) simp

lemma bfs_length: "length (plain_bfs g [v] [v]) = card (component_of g v)"
  using bfs_distinct [of g v] bfs_component [of g v] distinct_card by fastforce


lemma component_refl: "v \<in> component_of g v"
  by (simp add: component_of_def)

lemma component_eq:
  assumes "u \<in> component_of g v"
  shows "component_of g u = component_of g v"
proof -
  from assms have vu: "(v, u) \<in> (edge_rel g)\<^sup>*" by (simp add: component_of_def)
  then have uv: "(u, v) \<in> (edge_rel g)\<^sup>*" by (rule reach_sym)
  show ?thesis
    using vu uv by (auto simp: component_of_def intro: rtrancl_trans)
qed

lemma component_subset_nodes:
  assumes "wf_graph g" and "v \<in> set (nodes g)"
  shows "component_of g v \<subseteq> set (nodes g)"
proof (rule closed_contains_component [OF assms(2)])
  show "\<forall>u \<in> set (nodes g). \<forall>w. (u, w) \<in> edge_rel g \<longrightarrow> w \<in> set (nodes g)"
    using assms(1) by (force simp: wf_graph_def edge_rel_def)
qed

text \<open>Every list that \<^const>\<open>components_from\<close> yields is the search from one of the nodes.\<close>

lemma components_from_are_searches:
  "c \<in> set (components_from g seen vs) \<Longrightarrow> \<exists>v \<in> set vs. c = plain_bfs g [v] [v]"
  by (induction vs arbitrary: seen) (auto split: if_splits)

lemma components_from_cover:
  "v \<in> set vs \<Longrightarrow> v \<in> set seen \<or> (\<exists>c \<in> set (components_from g seen vs). v \<in> set c)"
proof (induction vs arbitrary: seen)
  case Nil
  then show ?case by simp
next
  case (Cons x vs)
  show ?case
  proof (cases "x \<in> set seen")
    case True
    with Cons show ?thesis by auto
  next
    case False
    show ?thesis
    proof (cases "v = x")
      case True
      with False show ?thesis by (simp add: bfs_component component_refl)
    next
      case vx: False
      with Cons.prems have "v \<in> set vs" by simp
      from Cons.IH [OF this, of "seen @ plain_bfs g [x] [x]"] False show ?thesis
        by auto
    qed
  qed
qed

lemma connected_components_sound:
  "c \<in> set (connected_components g) \<Longrightarrow> is_component g (set c) \<and> distinct c"
  unfolding connected_components_def is_component_def
  by (auto dest!: components_from_are_searches simp: bfs_component bfs_distinct)

lemma connected_components_complete:
  assumes "is_component g C"
  shows "\<exists>c \<in> set (connected_components g). set c = C"
proof -
  from assms obtain v where v: "v \<in> set (nodes g)" "C = component_of g v"
    by (auto simp: is_component_def)
  from components_from_cover [OF v(1), of "[]" g]
  obtain c where c: "c \<in> set (connected_components g)" "v \<in> set c"
    by (auto simp: connected_components_def)
  from c(1) obtain u where "c = plain_bfs g [u] [u]"
    unfolding connected_components_def by (auto dest: components_from_are_searches)
  then have "set c = component_of g u" by (simp add: bfs_component)
  with c(2) have "set c = component_of g v" by (simp add: component_eq)
  with c(1) v(2) show ?thesis by auto
qed

lemma foldl_max_len:
  "foldl (\<lambda>best x. if length best < length x then x else best) c rest \<in> set (c # rest)
   \<and> (\<forall>x \<in> set (c # rest).
         length x \<le> length (foldl (\<lambda>best x. if length best < length x then x else best) c rest))"
proof (induction rest arbitrary: c)
  case Nil
  then show ?case by simp
next
  case (Cons y rest)
  let ?f = "\<lambda>best x :: 'a list. if length best < length x then x else best"
  show ?case
  proof (cases "length c < length y")
    case True
    with Cons.IH [of y] show ?thesis by auto
  next
    case False
    with Cons.IH [of c] show ?thesis by auto
  qed
qed

lemma max_key_len_Inr:
  assumes "cs \<noteq> []"
  shows "\<exists>m. max_key_len cs = Inr m \<and> m \<in> set cs \<and> (\<forall>x \<in> set cs. length x \<le> length m)"
proof (cases cs)
  case Nil
  with assms show ?thesis by simp
next
  case (Cons c rest)
  with foldl_max_len [of c rest] show ?thesis
    by (simp add: max_key_len_def)
qed

lemma connected_components_nonempty: "nodes g \<noteq> [] \<Longrightarrow> connected_components g \<noteq> []"
  by (cases "nodes g") (auto simp: connected_components_def)

lemma nodes_subgraph:
  "set ns \<subseteq> set (nodes g) \<Longrightarrow> set (nodes (subgraph g ns)) = set ns"
  by (auto simp: subgraph_def)

lemma connected_iff:
  assumes "v \<in> set (nodes g)"
  shows "graph_connected g \<longleftrightarrow> set (nodes g) \<subseteq> component_of g v"
proof
  assume "graph_connected g"
  with assms show "set (nodes g) \<subseteq> component_of g v"
    by (auto simp: graph_connected_def component_of_def)
next
  assume sub: "set (nodes g) \<subseteq> component_of g v"
  show "graph_connected g"
    unfolding graph_connected_def
  proof (intro ballI)
    fix a b assume "a \<in> set (nodes g)" "b \<in> set (nodes g)"
    with sub have "(v, a) \<in> (edge_rel g)\<^sup>*" "(v, b) \<in> (edge_rel g)\<^sup>*"
      by (auto simp: component_of_def)
    then show "(a, b) \<in> (edge_rel g)\<^sup>*"
      by (meson reach_sym rtrancl_trans)
  qed
qed

lemma is_connected_iff:
  assumes "wf_graph g" and "nodes g \<noteq> []"
  shows "is_connected g = Inr (graph_connected g)"
proof -
  from assms(2) obtain v vs where n: "nodes g = v # vs" by (cases "nodes g") auto
  then have v: "v \<in> set (nodes g)" by simp
  have sub: "component_of g v \<subseteq> set (nodes g)"
    using assms(1) v by (rule component_subset_nodes)
  have dn: "card (set (nodes g)) = length (nodes g)"
    using assms(1) by (simp add: wf_graph_def distinct_card)
  have "length (plain_bfs g [v] [v]) = length (nodes g) \<longleftrightarrow> component_of g v = set (nodes g)"
  proof
    assume "length (plain_bfs g [v] [v]) = length (nodes g)"
    then have "card (component_of g v) = card (set (nodes g))"
      by (simp add: bfs_length dn)
    with sub show "component_of g v = set (nodes g)"
      by (simp add: card_subset_eq)
  next
    assume "component_of g v = set (nodes g)"
    then show "length (plain_bfs g [v] [v]) = length (nodes g)"
      by (simp add: bfs_length dn)
  qed
  also have "\<dots> \<longleftrightarrow> graph_connected g"
    using sub connected_iff [OF v] by auto
  finally show ?thesis
    by (simp add: is_connected_def n)
qed


text \<open>
  Claim C5, amended: for every graph with at least one node (a well-formed
  \<^verbatim>\<open>networkx.Graph\<close>), \<^verbatim>\<open>read_max_connected_component\<close> returns a Network whose node
  set is a connected component of the graph of maximum cardinality: no component has
  more nodes. When the graph is connected the Network holds the graph itself, so all
  its nodes; when it is not, the Network's nodes are exactly those of one largest
  component, a proper subset of the graph's nodes.
\<close>

theorem largest_component:
  assumes "wf_graph g" and "nodes g \<noteq> []"
  shows "\<exists>net. read_max_connected_component g = Inr net
           \<and> is_component g (set (nodes (graph net)))
           \<and> (\<forall>c. is_component g c \<longrightarrow> card c \<le> card (set (nodes (graph net))))
           \<and> (graph_connected g \<longrightarrow> graph net = g)
           \<and> (\<not> graph_connected g \<longrightarrow> set (nodes (graph net)) \<subset> set (nodes g))"
proof (cases "graph_connected g")
  case True
  from assms(2) obtain v vs where n: "nodes g = v # vs" by (cases "nodes g") auto
  then have v: "v \<in> set (nodes g)" by simp
  have all: "component_of g v = set (nodes g)"
    using True connected_iff [OF v] component_subset_nodes [OF assms(1) v] by auto
  have r: "read_max_connected_component g = Inr (network_of g)"
    using True by (simp add: read_max_connected_component_def is_connected_iff [OF assms])
  have ic: "is_component g (set (nodes g))"
    using v all by (auto simp: is_component_def)
  have mx: "\<forall>c. is_component g c \<longrightarrow> card c \<le> card (set (nodes g))"
  proof (intro allI impI)
    fix c assume "is_component g c"
    then have "c \<subseteq> set (nodes g)"
      using component_subset_nodes [OF assms(1)] by (auto simp: is_component_def)
    then show "card c \<le> card (set (nodes g))"
      by (simp add: card_mono)
  qed
  from r ic mx True show ?thesis
    by (simp add: network_of_def)
next
  case False
  from connected_components_nonempty [OF assms(2)] max_key_len_Inr
  obtain m where m: "max_key_len (connected_components g) = Inr m"
    "m \<in> set (connected_components g)"
    "\<forall>x \<in> set (connected_components g). length x \<le> length m"
    by blast
  from m(2) have ic: "is_component g (set m)" and dm: "distinct m"
    using connected_components_sound by blast+
  then obtain v where v: "v \<in> set (nodes g)" "set m = component_of g v"
    by (auto simp: is_component_def)
  have sub: "set m \<subseteq> set (nodes g)"
    using component_subset_nodes [OF assms(1) v(1)] v(2) by simp
  have ns: "set (nodes (subgraph g m)) = set m"
    using sub by (rule nodes_subgraph)
  have r: "read_max_connected_component g = Inr (network_of (subgraph g m))"
    using False m(1) by (simp add: read_max_connected_component_def is_connected_iff [OF assms])
  have mx: "\<forall>c. is_component g c \<longrightarrow> card c \<le> card (set m)"
  proof (intro allI impI)
    fix c assume "is_component g c"
    then obtain x where x: "x \<in> set (connected_components g)" "set x = c"
      using connected_components_complete by blast
    then have "distinct x" using connected_components_sound by blast
    with x m(3) dm show "card c \<le> card (set m)"
      by (metis distinct_card)
  qed
  have "set m \<noteq> set (nodes g)"
    using False connected_iff [OF v(1)] v(2) by auto
  with sub have "set m \<subset> set (nodes g)" by blast
  with r ic mx False ns show ?thesis
    by (simp add: network_of_def)
qed

text \<open>
  Claim C5 as stated, for every input graph, fails on the graph without nodes (an edge
  list without edges): \<^verbatim>\<open>nx.is_connected\<close> raises and no Network is built.
\<close>

theorem empty_graph_counterexample:
  "read_max_connected_component \<lparr>nodes = [] :: nat list, edges = []\<rparr> = Inl NetworkXPointlessConcept"
  by (simp add: read_max_connected_component_def is_connected_def)

theorem largest_component_witness:
  "wf_graph \<lparr>nodes = [1, 2, 3, 4, 5 :: nat], edges = [(1, 2), (3, 4), (4, 5)]\<rparr>
   \<and> nodes \<lparr>nodes = [1, 2, 3, 4, 5 :: nat], edges = [(1, 2), (3, 4), (4, 5)]\<rparr> \<noteq> []
   \<and> read_max_connected_component \<lparr>nodes = [1, 2, 3, 4, 5 :: nat], edges = [(1, 2), (3, 4), (4, 5)]\<rparr>
       = Inr \<lparr>graph = \<lparr>nodes = [3, 4, 5], edges = [(3, 4), (4, 5)]\<rparr>, shortest_paths = None\<rparr>
   \<and> is_component \<lparr>nodes = [1, 2, 3, 4, 5 :: nat], edges = [(1, 2), (3, 4), (4, 5)]\<rparr> {3, 4, 5}
   \<and> \<not> (\<exists>c. is_component \<lparr>nodes = [1, 2, 3, 4, 5 :: nat], edges = [(1, 2), (3, 4), (4, 5)]\<rparr> c
            \<and> 3 < card c)"
proof -
  let ?g = "\<lparr>nodes = [1, 2, 3, 4, 5 :: nat], edges = [(1, 2), (3, 4), (4, 5)]\<rparr>"
  have wf: "wf_graph ?g" by (simp add: wf_graph_def)
  have ne: "nodes ?g \<noteq> []" by simp
  have ev: "read_max_connected_component ?g
       = Inr \<lparr>graph = \<lparr>nodes = [3, 4, 5], edges = [(3, 4), (4, 5)]\<rparr>, shortest_paths = None\<rparr>"
    by code_simp
  from largest_component [OF wf ne] ev
  have "is_component ?g (set [3, 4, 5])"
    and "\<forall>c. is_component ?g c \<longrightarrow> card c \<le> card (set [3, 4, 5 :: nat])"
    by auto
  moreover have "card (set [3, 4, 5 :: nat]) = 3" by simp
  ultimately have "is_component ?g {3, 4, 5}" and "\<not> (\<exists>c. is_component ?g c \<and> 3 < card c)"
    by (auto simp: not_less)
  with wf ne ev show ?thesis by blast
qed

end
